theory Spec2Isabelle
  imports Main "HOL-Library.Word" "HOL-Library.Monad_Syntax"
begin

section \<open>Logical tiles of the execution engine\<close>

text \<open>
  A shallow embedding of \<^verbatim>\<open>src/executor/logical_tile.cpp\<close> and of the plan-node
  constructor in \<^verbatim>\<open>src/backend/planner/order_by_node.h\<close>.

  \<^item> \<^verbatim>\<open>id_t\<close> is declared in the absent \<^verbatim>\<open>common/types.h\<close>. It is an unsigned
    machine integer; its width is the type parameter \<open>'w\<close>, so an \<^verbatim>\<open>id_t\<close> is a
    \<open>'w word\<close> and \<^verbatim>\<open>pos_++\<close> wraps around (the records take the type of ids as
    their parameter). The constant \<^verbatim>\<open>INVALID_ID\<close> of the same header is a parameter of
    every function that uses it.
  \<^item> Container sizes (\<^verbatim>\<open>size()\<close>) are natural numbers; the counters the code derives
    from them (\<^verbatim>\<open>num_tuples_\<close>, the \<^verbatim>\<open>unsigned int\<close> position-list index, the
    \<^verbatim>\<open>int\<close> results of \<^verbatim>\<open>NumTuples\<close>, \<^verbatim>\<open>NumCols\<close> and \<^verbatim>\<open>AddPositionList\<close>)
    are \<open>nat\<close> and \<open>int\<close>, read on the range where the C++ conversions keep the value.
  \<^item> A pointer is an address. \<^verbatim>\<open>storage::Tile\<close>, \<^verbatim>\<open>storage::Tuple\<close> and \<^verbatim>\<open>Value\<close>
    are classes of absent files: the two accessors of a physical tile that the code calls
    are function parameters, a \<^verbatim>\<open>Value\<close> is a value of the type parameter \<open>'v\<close>, a
    \<^verbatim>\<open>Tuple *\<close> is an \<open>option\<close> whose \<open>None\<close> is the null pointer.
  \<^item> A failed \<^verbatim>\<open>assert\<close> aborts the program: it is the result \<open>Inl AssertionFailure\<close>.
    An unchecked \<^verbatim>\<open>operator[]\<close> outside the vector is \<open>Inl OutOfBounds\<close>.
  \<^item> Members keep their names without the final underscore (\<open>schema\<close> for
    \<^verbatim>\<open>schema_\<close>); \<open>tile_begin\<close> and \<open>tile_end\<close> are \<^verbatim>\<open>begin()\<close> and \<^verbatim>\<open>end()\<close>.
\<close>

subsection \<open>Data model\<close>

type_synonym tile_ptr = nat
  \<comment> \<open>\<^verbatim>\<open>storage::Tile *\<close>: the address of a physical (base) tile\<close>

type_synonym logical_tile_ptr = nat
  \<comment> \<open>\<^verbatim>\<open>LogicalTile *\<close>\<close>

datatype error = AssertionFailure | OutOfBounds

record 'id ColumnPointer =
  position_list_idx :: nat
  base_tile :: tile_ptr
  origin_column_id :: 'id

record 'id LogicalTile =
  schema :: "'id ColumnPointer list"
  position_lists :: "'id list list"
  valid_rows :: "bool list"
  num_tuples :: nat
  owned_base_tiles :: "tile_ptr list"
    \<comment> \<open>a \<^verbatim>\<open>std::unordered_set\<close>: a list without repetition; the order in which the
        set is traversed is not fixed by C++, and no theorem below depends on it\<close>

text \<open>\<^verbatim>\<open>std::unordered_set::insert\<close>: an element already present is not added again.\<close>

definition unordered_set_insert :: "'a \<Rightarrow> 'a list \<Rightarrow> 'a list" where
  "unordered_set_insert x xs = (if x \<in> set xs then xs else xs @ [x])"

text \<open>\<^verbatim>\<open>std::vector::resize(n, v)\<close>: cut to \<open>n\<close> elements, or filled up with \<open>v\<close>.\<close>

definition vector_resize :: "'a list \<Rightarrow> nat \<Rightarrow> 'a \<Rightarrow> 'a list" where
  "vector_resize xs n v = take n xs @ replicate (n - length xs) v"

text \<open>
  The do-nothing constructor: every container member starts empty. The initial value of
  \<^verbatim>\<open>num_tuples_\<close> is set in the absent header, so it is the argument \<open>n0\<close>.
\<close>

definition LogicalTile_ctor :: "nat \<Rightarrow> 'w word LogicalTile" where
  "LogicalTile_ctor n0 =
     \<lparr>schema = [], position_lists = [], valid_rows = [], num_tuples = n0,
      owned_base_tiles = []\<rparr>"

subsection \<open>Build operations\<close>

definition AddColumn ::
  "'w word LogicalTile \<Rightarrow> tile_ptr \<Rightarrow> bool \<Rightarrow> 'w word \<Rightarrow> nat \<Rightarrow> error + 'w word LogicalTile" where
  "AddColumn t base_tile' own_base_tile origin_column_id' position_list_idx' =
     (if \<not> position_list_idx' < length (position_lists t) then Inl AssertionFailure
      else
        let cp = \<lparr>position_list_idx = position_list_idx', base_tile = base_tile',
                  origin_column_id = origin_column_id'\<rparr>;
            t1 = t\<lparr>schema := schema t @ [cp]\<rparr>
        in Inr (if own_base_tile
                then t1\<lparr>owned_base_tiles :=
                          unordered_set_insert base_tile' (owned_base_tiles t1)\<rparr>
                else t1))"

definition AddPositionList ::
  "'w word LogicalTile \<Rightarrow> 'w word list \<Rightarrow> error + ('w word LogicalTile \<times> int)" where
  "AddPositionList t position_list =
     (if \<not> (length (position_lists t) = 0
             \<or> length (position_lists t ! 0) = length position_list)
      then Inl AssertionFailure
      else
        let t1 = (if length (position_lists t) = 0
                  then t\<lparr>num_tuples := length position_list,
                         valid_rows :=
                           vector_resize (valid_rows t) (length position_list) True\<rparr>
                  else t);
            t2 = t1\<lparr>position_lists := position_lists t1 @ [position_list]\<rparr>
        in Inr (t2, int (length (position_lists t2)) - 1))"

subsection \<open>Accessors\<close>

definition GetBaseTile :: "'w::len word LogicalTile \<Rightarrow> 'w word \<Rightarrow> error + tile_ptr" where
  "GetBaseTile t column_id =
     (if unat column_id < length (schema t)
      then Inr (base_tile (schema t ! unat column_id))
      else Inl OutOfBounds)"

text \<open>
  \<open>tile_GetTuple p row\<close> stands for \<^verbatim>\<open>p->GetTuple(row)\<close> and
  \<open>tile_GetValue p row col\<close> for \<^verbatim>\<open>p->GetValue(row, col)\<close> of the physical tile at
  address \<open>p\<close>; \<open>invalid_value\<close> stands for \<^verbatim>\<open>ValueFactory::GetInvalidValue()\<close>.
\<close>

definition GetTuple ::
  "(tile_ptr \<Rightarrow> 'w::len word \<Rightarrow> 'u option) \<Rightarrow> 'w word LogicalTile \<Rightarrow> 'w word \<Rightarrow> 'w word
    \<Rightarrow> error + 'u option" where
  "GetTuple tile_GetTuple t column_id tuple_id =
     (if \<not> unat column_id < length (schema t) then Inl AssertionFailure
      else if \<not> unat tuple_id < length (valid_rows t) then Inl AssertionFailure
      else if \<not> valid_rows t ! unat tuple_id then Inr None
      else
        let cp = schema t ! unat column_id in
        if \<not> position_list_idx cp < length (position_lists t) then Inl OutOfBounds
        else if \<not> unat tuple_id < length (position_lists t ! position_list_idx cp)
        then Inl OutOfBounds
        else
          let base_tuple_id = position_lists t ! position_list_idx cp ! unat tuple_id
          in Inr (tile_GetTuple (base_tile cp) base_tuple_id))"

definition GetValue ::
  "(tile_ptr \<Rightarrow> 'w::len word \<Rightarrow> 'w word \<Rightarrow> 'v) \<Rightarrow> 'v \<Rightarrow> 'w word LogicalTile \<Rightarrow> 'w word \<Rightarrow> 'w word
    \<Rightarrow> error + 'v" where
  "GetValue tile_GetValue invalid_value t column_id tuple_id =
     (if \<not> unat column_id < length (schema t) then Inl AssertionFailure
      else if \<not> unat tuple_id < length (valid_rows t) then Inl AssertionFailure
      else if \<not> valid_rows t ! unat tuple_id then Inr invalid_value
      else
        let cp = schema t ! unat column_id in
        if \<not> position_list_idx cp < length (position_lists t) then Inl OutOfBounds
        else if \<not> unat tuple_id < length (position_lists t ! position_list_idx cp)
        then Inl OutOfBounds
        else
          let base_tuple_id = position_lists t ! position_list_idx cp ! unat tuple_id
          in Inr (tile_GetValue (base_tile cp) base_tuple_id (origin_column_id cp)))"

definition NumTuples :: "'w word LogicalTile \<Rightarrow> int" where
  "NumTuples t = int (num_tuples t)"

definition NumCols :: "'w word LogicalTile \<Rightarrow> int" where
  "NumCols t = int (length (schema t))"

text \<open>
  The destructor: one \<^verbatim>\<open>delete\<close> per element of the owned set. The result is the
  sequence of addresses passed to \<^verbatim>\<open>delete\<close>.
\<close>

definition LogicalTile_dtor :: "'w word LogicalTile \<Rightarrow> tile_ptr list" where
  "LogicalTile_dtor t =
     fold (\<lambda>base_tile' deleted. deleted @ [base_tile']) (owned_base_tiles t) []"

subsection \<open>The build phase\<close>

text \<open>
  A tile is assembled by a sequence of calls of the two build operations on a tile that
  the constructor made. The sequence stops at the first call that fails.
\<close>

datatype 'id build_op =
    AddPositionListOp "'id list"
  | AddColumnOp tile_ptr bool 'id nat

fun apply_build_op :: "'w word LogicalTile \<Rightarrow> 'w word build_op \<Rightarrow> error + 'w word LogicalTile" where
  "apply_build_op t (AddPositionListOp position_list) =
     (case AddPositionList t position_list of
        Inl e \<Rightarrow> Inl e
      | Inr (t', idx) \<Rightarrow> Inr t')"
| "apply_build_op t (AddColumnOp p own oc idx) = AddColumn t p own oc idx"

fun build :: "'w word LogicalTile \<Rightarrow> 'w word build_op list \<Rightarrow> error + 'w word LogicalTile" where
  "build t [] = Inr t"
| "build t (c # cs) =
     (case apply_build_op t c of Inl e \<Rightarrow> Inl e | Inr t' \<Rightarrow> build t' cs)"

text \<open>The first position list of a call sequence, and the tiles it asks to own.\<close>

fun first_position_list :: "'w word build_op list \<Rightarrow> 'w word list option" where
  "first_position_list [] = None"
| "first_position_list (AddPositionListOp position_list # cs) = Some position_list"
| "first_position_list (AddColumnOp p own oc idx # cs) = first_position_list cs"

fun ownership_taken :: "'w word build_op list \<Rightarrow> tile_ptr set" where
  "ownership_taken [] = {}"
| "ownership_taken (AddPositionListOp position_list # cs) = ownership_taken cs"
| "ownership_taken (AddColumnOp p own oc idx # cs) =
     (if own then insert p (ownership_taken cs) else ownership_taken cs)"

subsection \<open>The iterator\<close>

text \<open>
  An iterator holds the address of its tile and a position. The member functions read
  \<^verbatim>\<open>tile_->valid_rows_\<close>: the state \<open>t\<close> of the tile at that address is an argument.
  The two loops advance an \<^verbatim>\<open>id_t\<close> that wraps around, so they need not end:
  \<open>None\<close> is a loop that runs forever.
\<close>

record 'id iterator =
  tile :: logical_tile_ptr
  pos :: 'id

text \<open>\<^verbatim>\<open>while (pos_ < valid_rows_.size() && !valid_rows_[pos_]) pos_++;\<close>\<close>

partial_function (option) skip_invalid :: "bool list \<Rightarrow> 'w::len word \<Rightarrow> 'w word option" where
  "skip_invalid rows p =
     (if unat p < length rows \<and> \<not> rows ! unat p then skip_invalid rows (p + 1)
      else Some p)"

definition iterator_ctor ::
  "'w::len word \<Rightarrow> logical_tile_ptr \<Rightarrow> 'w word LogicalTile \<Rightarrow> bool \<Rightarrow> 'w word iterator option" where
  "iterator_ctor INVALID_ID this t begin' =
     (if \<not> begin' then Some \<lparr>tile = this, pos = INVALID_ID\<rparr>
      else do {
        p \<leftarrow> skip_invalid (valid_rows t) 0;
        Some \<lparr>tile = this,
              pos = (if unat p = length (valid_rows t) then INVALID_ID else p)\<rparr>
      })"

definition tile_begin ::
  "'w::len word \<Rightarrow> logical_tile_ptr \<Rightarrow> 'w word LogicalTile \<Rightarrow> 'w word iterator option" where
  "tile_begin INVALID_ID this t = iterator_ctor INVALID_ID this t True"

definition tile_end ::
  "'w::len word \<Rightarrow> logical_tile_ptr \<Rightarrow> 'w word LogicalTile \<Rightarrow> 'w word iterator option" where
  "tile_end INVALID_ID this t = iterator_ctor INVALID_ID this t False"

text \<open>\<^verbatim>\<open>operator++\<close>: a do-while loop, so the position moves at least once.\<close>

definition iterator_incr ::
  "'w::len word \<Rightarrow> 'w word LogicalTile \<Rightarrow> 'w word iterator \<Rightarrow> 'w word iterator option" where
  "iterator_incr INVALID_ID t it =
     do {
       p \<leftarrow> skip_invalid (valid_rows t) (pos it + 1);
       Some (it\<lparr>pos := (if unat p = length (valid_rows t) then INVALID_ID else p)\<rparr>)
     }"

text \<open>\<^verbatim>\<open>operator++(int)\<close>: the iterator before the increment and the iterator after it.\<close>

definition iterator_post_incr ::
  "'w::len word \<Rightarrow> 'w word LogicalTile \<Rightarrow> 'w word iterator
    \<Rightarrow> ('w word iterator \<times> 'w word iterator) option" where
  "iterator_post_incr INVALID_ID t it =
     do {
       it' \<leftarrow> iterator_incr INVALID_ID t it;
       Some (it, it')
     }"

definition iterator_eq :: "'w word iterator \<Rightarrow> 'w word iterator \<Rightarrow> bool" where
  "iterator_eq lhs rhs \<longleftrightarrow> pos lhs = pos rhs \<and> tile lhs = tile rhs"

definition iterator_neq :: "'w word iterator \<Rightarrow> 'w word iterator \<Rightarrow> bool" where
  "iterator_neq lhs rhs \<longleftrightarrow> pos lhs \<noteq> pos rhs \<or> tile lhs \<noteq> tile rhs"

definition iterator_deref :: "'w word iterator \<Rightarrow> 'w word" where
  "iterator_deref it = pos it"

text \<open>
  The range loop
  \<^verbatim>\<open>for (it = begin(); it != end(); ++it) visit(*it);\<close>
  over the tile at address \<open>this\<close>: the result is the sequence of visited row ids.
\<close>

partial_function (option) iterate_from ::
  "'w::len word \<Rightarrow> logical_tile_ptr \<Rightarrow> 'w word LogicalTile \<Rightarrow> 'w word iterator \<Rightarrow> 'w word list option"
  where
  "iterate_from INVALID_ID this t it =
     do {
       e \<leftarrow> tile_end INVALID_ID this t;
       if iterator_neq it e
       then do {
         it' \<leftarrow> iterator_incr INVALID_ID t it;
         rest \<leftarrow> iterate_from INVALID_ID this t it';
         Some (iterator_deref it # rest)
       }
       else Some []
     }"

definition iterate ::
  "'w::len word \<Rightarrow> logical_tile_ptr \<Rightarrow> 'w word LogicalTile \<Rightarrow> 'w word list option" where
  "iterate INVALID_ID this t =
     do {
       b \<leftarrow> tile_begin INVALID_ID this t;
       iterate_from INVALID_ID this t b
     }"

subsection \<open>The materialization executor\<close>

text \<open>
  Of the materialization executor only the header
  \<^verbatim>\<open>src/executor/materialization_executor.h\<close> is present: it declares \<^verbatim>\<open>DExecute\<close>,
  \<^verbatim>\<open>GenerateTileToColMap\<close> and \<^verbatim>\<open>MaterializeByTiles\<close>, whose bodies are in the absent
  \<^verbatim>\<open>materialization_executor.cpp\<close>. The definitions of this subsection follow the
  specification of the execute phase.
\<close>

text \<open>
  Modelled from the spec: the destination physical tile (the class \<^verbatim>\<open>storage::Tile\<close> is
  absent). A physical tile under construction is the list of its rows; a row maps a column
  id to the value stored there.
\<close>

type_synonym ('id, 'v) physical_tile = "('id \<rightharpoonup> 'v) list"

text \<open>
  Modelled from the spec: ``allocate a destination Physical Tile'' (the allocation of the
  absent \<^verbatim>\<open>storage::Tile\<close>). A new tile has the given number of rows and no value.
\<close>

definition allocate_tile :: "nat \<Rightarrow> ('id, 'v) physical_tile" where
  "allocate_tile n = replicate n Map.empty"

text \<open>
  Modelled from the spec: storing one value of the destination tile (the setter of the
  absent \<^verbatim>\<open>storage::Tile\<close>); a row that the tile does not have is an error.
\<close>

definition SetValue ::
  "('id, 'v) physical_tile \<Rightarrow> nat \<Rightarrow> 'id \<Rightarrow> 'v \<Rightarrow> error + ('id, 'v) physical_tile" where
  "SetValue d row col v =
     (if row < length d then Inr (d[row := (d ! row)(col \<mapsto> v)]) else Inl OutOfBounds)"

text \<open>
  Modelled from the spec: the statement \<^verbatim>\<open>tile_to_cols[base_tile].push_back(col)\<close> of the
  absent body of \<^verbatim>\<open>GenerateTileToColMap\<close>. The map from a base tile to the logical
  columns it backs is an association list; a column is appended to the entry of its tile,
  and a tile without an entry gets one.
\<close>

fun tile_to_cols_add ::
  "tile_ptr \<Rightarrow> 'id \<Rightarrow> (tile_ptr \<times> 'id list) list \<Rightarrow> (tile_ptr \<times> 'id list) list" where
  "tile_to_cols_add p c [] = [(p, [c])]"
| "tile_to_cols_add p c ((q, cs) # m) =
     (if p = q then (q, cs @ [c]) # m else (q, cs) # tile_to_cols_add p c m)"

text \<open>
  Modelled from the spec: \<^verbatim>\<open>GenerateTileToColMap\<close>, whose body is absent: ``partition the
  requested output columns by the Physical Tile each resolves to''. A configured column
  that the source tile does not have is the error of \<open>GetBaseTile\<close>.
\<close>

fun GenerateTileToColMap ::
  "('w::len word \<times> 'w word) list \<Rightarrow> 'w word LogicalTile \<Rightarrow> (tile_ptr \<times> 'w word list) list
    \<Rightarrow> error + (tile_ptr \<times> 'w word list) list" where
  "GenerateTileToColMap [] source_tile tile_to_cols = Inr tile_to_cols"
| "GenerateTileToColMap ((old_col, new_col) # rest) source_tile tile_to_cols =
     (case GetBaseTile source_tile old_col of
        Inl e \<Rightarrow> Inl e
      | Inr p \<Rightarrow> GenerateTileToColMap rest source_tile (tile_to_cols_add p old_col tile_to_cols))"

text \<open>
  Modelled from the spec: the innermost loop of the absent body of \<^verbatim>\<open>MaterializeByTiles\<close>:
  ``copy, for every logical row in the current (possibly filtered) row order, the values''
  of one column. \<open>rows\<close> is the sequence of row ids that the iteration of the source tile
  yields; the value of its \<open>n\<close>-th row is written to row \<open>n\<close> of the destination.
\<close>

fun copy_column ::
  "(tile_ptr \<Rightarrow> 'w::len word \<Rightarrow> 'w word \<Rightarrow> 'v) \<Rightarrow> 'v \<Rightarrow> 'w word LogicalTile \<Rightarrow> 'w word \<Rightarrow> 'w word
    \<Rightarrow> 'w word list \<Rightarrow> nat \<Rightarrow> ('w word, 'v) physical_tile \<Rightarrow> error + ('w word, 'v) physical_tile"
  where
  "copy_column gv iv source_tile old_col new_col [] new_tuple_id dest_tile = Inr dest_tile"
| "copy_column gv iv source_tile old_col new_col (tuple_id # rows) new_tuple_id dest_tile =
     (case GetValue gv iv source_tile old_col tuple_id of
        Inl e \<Rightarrow> Inl e
      | Inr v \<Rightarrow>
          (case SetValue dest_tile new_tuple_id new_col v of
             Inl e \<Rightarrow> Inl e
           | Inr d \<Rightarrow> copy_column gv iv source_tile old_col new_col rows (Suc new_tuple_id) d))"

text \<open>
  Modelled from the spec: the loop of the absent body of \<^verbatim>\<open>MaterializeByTiles\<close> over
  ``the required columns'' of one partition; the old-to-new mapping gives the column of
  the destination.
\<close>

fun copy_columns ::
  "(tile_ptr \<Rightarrow> 'w::len word \<Rightarrow> 'w word \<Rightarrow> 'v) \<Rightarrow> 'v \<Rightarrow> 'w word LogicalTile
    \<Rightarrow> ('w word \<times> 'w word) list \<Rightarrow> 'w word list \<Rightarrow> 'w word list
    \<Rightarrow> ('w word, 'v) physical_tile \<Rightarrow> error + ('w word, 'v) physical_tile" where
  "copy_columns gv iv source_tile old_to_new_cols [] rows dest_tile = Inr dest_tile"
| "copy_columns gv iv source_tile old_to_new_cols (old_col # cols) rows dest_tile =
     (case map_of old_to_new_cols old_col of
        None \<Rightarrow> Inl OutOfBounds
      | Some new_col \<Rightarrow>
          (case copy_column gv iv source_tile old_col new_col rows 0 dest_tile of
             Inl e \<Rightarrow> Inl e
           | Inr d \<Rightarrow> copy_columns gv iv source_tile old_to_new_cols cols rows d))"

text \<open>
  Modelled from the spec: \<^verbatim>\<open>MaterializeByTiles\<close>, whose body is absent: the copy is done
  ``for each partition'', one source tile after the other.
\<close>

fun MaterializeByTiles ::
  "(tile_ptr \<Rightarrow> 'w::len word \<Rightarrow> 'w word \<Rightarrow> 'v) \<Rightarrow> 'v \<Rightarrow> 'w word LogicalTile
    \<Rightarrow> ('w word \<times> 'w word) list \<Rightarrow> (tile_ptr \<times> 'w word list) list \<Rightarrow> 'w word list
    \<Rightarrow> ('w word, 'v) physical_tile \<Rightarrow> error + ('w word, 'v) physical_tile" where
  "MaterializeByTiles gv iv source_tile old_to_new_cols [] rows dest_tile = Inr dest_tile"
| "MaterializeByTiles gv iv source_tile old_to_new_cols ((p, old_cols) # tile_to_cols) rows
     dest_tile =
     (case copy_columns gv iv source_tile old_to_new_cols old_cols rows dest_tile of
        Inl e \<Rightarrow> Inl e
      | Inr d \<Rightarrow> MaterializeByTiles gv iv source_tile old_to_new_cols tile_to_cols rows d)"

text \<open>
  Modelled from the spec: the outcome of the execute phase (the absent body of
  \<^verbatim>\<open>DExecute\<close>): the stream is exhausted, or a tile is emitted.
\<close>

datatype 'a execute_result = Exhausted | Emitted 'a

text \<open>
  Modelled from the spec: \<^verbatim>\<open>DExecute\<close>, whose body is absent. The execute phase asks the
  child for its next logical tile (\<open>child_output\<close>: the address and the state of that tile,
  or \<open>None\<close>). Without a tile it reports that the stream is exhausted. Otherwise it
  partitions the columns, allocates a destination tile with one row per visible row of
  the source, fills it and emits it. The outer \<open>option\<close> is \<open>None\<close> when the iteration of
  the source tile does not end.
\<close>

definition DExecute ::
  "(tile_ptr \<Rightarrow> 'w::len word \<Rightarrow> 'w word \<Rightarrow> 'v) \<Rightarrow> 'v \<Rightarrow> 'w word \<Rightarrow> ('w word \<times> 'w word) list
    \<Rightarrow> (logical_tile_ptr \<times> 'w word LogicalTile) option
    \<Rightarrow> (error + ('w word, 'v) physical_tile execute_result) option" where
  "DExecute gv iv INVALID_ID old_to_new_cols child_output =
     (case child_output of
        None \<Rightarrow> Some (Inr Exhausted)
      | Some (this, source_tile) \<Rightarrow>
          do {
            rows \<leftarrow> iterate INVALID_ID this source_tile;
            Some (case GenerateTileToColMap old_to_new_cols source_tile [] of
                    Inl e \<Rightarrow> Inl e
                  | Inr tile_to_cols \<Rightarrow>
                      (case MaterializeByTiles gv iv source_tile old_to_new_cols tile_to_cols
                              rows (allocate_tile (length rows)) of
                         Inl e \<Rightarrow> Inl e
                       | Inr dest_tile \<Rightarrow> Inr (Emitted dest_tile)))
          })"

text \<open>
  The invariants of the data model that reading a valid row needs: every descriptor
  points at a position list that exists, and every position list has one entry per row.
\<close>

definition well_formed :: "'w word LogicalTile \<Rightarrow> bool" where
  "well_formed t \<longleftrightarrow>
     (\<forall>cp \<in> set (schema t). position_list_idx cp < length (position_lists t))
   \<and> (\<forall>pl \<in> set (position_lists t). length pl = length (valid_rows t))"

subsection \<open>The plan node of an order-by stage\<close>

text \<open>
  \<^verbatim>\<open>oid_t\<close> is an unsigned integer of the absent \<^verbatim>\<open>backend/common/types.h\<close>, again of
  width \<open>'w\<close>; the backend is a pointer. The constructor copies its four arguments into
  the members and has an empty body: it has no failing path, and its result type says so
  with a sum that is always \<open>Inr\<close>.
\<close>

type_synonym backend_ptr = nat

record 'id OrderByNode =
  sort_keys :: "'id list"
  descend_flags :: "bool list"
  output_column_ids :: "'id list"
  backend :: backend_ptr

definition OrderByNode_ctor ::
  "'w word list \<Rightarrow> bool list \<Rightarrow> 'w word list \<Rightarrow> backend_ptr \<Rightarrow> error + 'w word OrderByNode" where
  "OrderByNode_ctor sort_keys' descend_flags' output_column_ids' backend' =
     Inr \<lparr>sort_keys = sort_keys', descend_flags = descend_flags',
          output_column_ids = output_column_ids', backend = backend'\<rparr>"

definition GetSortKeys :: "'w word OrderByNode \<Rightarrow> 'w word list" where
  "GetSortKeys n = sort_keys n"

definition GetDescendFlags :: "'w word OrderByNode \<Rightarrow> bool list" where
  "GetDescendFlags n = descend_flags n"

definition GetOutputColumnIds :: "'w word OrderByNode \<Rightarrow> 'w word list" where
  "GetOutputColumnIds n = output_column_ids n"

definition GetBackend :: "'w word OrderByNode \<Rightarrow> backend_ptr" where
  "GetBackend n = backend n"

subsection \<open>The invariant of the build phase\<close>

text \<open>
  What every tile assembled by the two build operations satisfies: descriptors point at
  position lists that exist, all position lists are as long as the validity vector, no
  row is invalidated, the row counter is the length of the validity vector once a
  position list is there, and the owned set has no repetition.
\<close>

definition built :: "'w word LogicalTile \<Rightarrow> bool" where
  "built t \<longleftrightarrow>
     (\<forall>cp \<in> set (schema t). position_list_idx cp < length (position_lists t))
   \<and> (\<forall>pl \<in> set (position_lists t). length pl = length (valid_rows t))
   \<and> (\<forall>b \<in> set (valid_rows t). b)
   \<and> (position_lists t \<noteq> [] \<longrightarrow> length (valid_rows t) = num_tuples t)
   \<and> (position_lists t = [] \<longrightarrow> valid_rows t = [])
   \<and> distinct (owned_base_tiles t)"

subsection \<open>The next valid row\<close>

text \<open>
  The position at which a scan that starts at row \<open>n\<close> stops, as a natural number: the
  first valid row from \<open>n\<close> on, or the number of rows. It describes what the loop of
  the iterator computes as long as the position does not wrap around.
\<close>

function next_valid :: "bool list \<Rightarrow> nat \<Rightarrow> nat" where
  "next_valid rows n =
     (if n < length rows \<and> \<not> rows ! n then next_valid rows (Suc n) else n)"
  by pat_completeness auto
termination
  by (relation "measure (\<lambda>(rows, n). length rows - n)") auto

declare next_valid.simps [simp del]

subsection \<open>A sample tile\<close>

text \<open>
  Two columns of the physical tile at address 7 behind the position list \<open>[2, 0, 1]\<close>;
  the second logical row has been invalidated.
\<close>

definition sample_tile :: "'w::len word LogicalTile" where
  "sample_tile =
     \<lparr>schema = [\<lparr>position_list_idx = 0, base_tile = 7, origin_column_id = 0\<rparr>,
                \<lparr>position_list_idx = 0, base_tile = 7, origin_column_id = 1\<rparr>],
      position_lists = [[2, 0, 1]],
      valid_rows = [True, False, True],
      num_tuples = 3,
      owned_base_tiles = [7]\<rparr>"

text \<open>
  A build sequence: one position list, two columns of the owned tile at address 7 and
  one column of the tile at address 8, which is not owned; and the tile it builds.
\<close>

definition sample_build :: "'w::len word build_op list" where
  "sample_build =
     [AddPositionListOp [2, 0, 1],
      AddColumnOp 7 True 0 0,
      AddColumnOp 7 True 1 0,
      AddColumnOp 8 False 0 0]"

definition sample_built :: "'w::len word LogicalTile" where
  "sample_built =
     \<lparr>schema = [\<lparr>position_list_idx = 0, base_tile = 7, origin_column_id = 0\<rparr>,
                \<lparr>position_list_idx = 0, base_tile = 7, origin_column_id = 1\<rparr>,
                \<lparr>position_list_idx = 0, base_tile = 8, origin_column_id = 0\<rparr>],
      position_lists = [[2, 0, 1]],
      valid_rows = [True, True, True],
      num_tuples = 3,
      owned_base_tiles = [7]\<rparr>"

section \<open>Lemmas\<close>

subsection \<open>Effects of the two build operations\<close>

lemma AddColumn_Inr:
  assumes "AddColumn t p own oc idx = Inr t'"
  shows "idx < length (position_lists t)"
    and "schema t' = schema t @ [\<lparr>position_list_idx = idx, base_tile = p, origin_column_id = oc\<rparr>]"
    and "position_lists t' = position_lists t"
    and "valid_rows t' = valid_rows t"
    and "num_tuples t' = num_tuples t"
    and "owned_base_tiles t' =
           (if own then unordered_set_insert p (owned_base_tiles t) else owned_base_tiles t)"
  using assms by (auto simp: AddColumn_def Let_def split: if_splits)

lemma AddPositionList_Inr:
  assumes "AddPositionList t pl = Inr (t', i)"
  shows "position_lists t' = position_lists t @ [pl]"
    and "schema t' = schema t"
    and "owned_base_tiles t' = owned_base_tiles t"
    and "position_lists t \<noteq> [] \<Longrightarrow> length (position_lists t ! 0) = length pl"
    and "position_lists t \<noteq> [] \<Longrightarrow> valid_rows t' = valid_rows t"
    and "position_lists t \<noteq> [] \<Longrightarrow> num_tuples t' = num_tuples t"
    and "position_lists t = [] \<Longrightarrow> num_tuples t' = length pl"
    and "position_lists t = [] \<Longrightarrow> valid_rows t' = vector_resize (valid_rows t) (length pl) True"
  using assms by (auto simp: AddPositionList_def Let_def split: if_splits)

lemma vector_resize_Nil: "vector_resize [] n v = replicate n v"
  by (simp add: vector_resize_def)

lemma build_append:
  "build t (xs @ ys) = (case build t xs of Inl e \<Rightarrow> Inl e | Inr s \<Rightarrow> build s ys)"
  by (induction xs arbitrary: t) (auto split: sum.splits)

lemma build_take:
  assumes "build t cs = Inr t'"
  shows "\<exists>s. build t (take k cs) = Inr s \<and> build s (drop k cs) = Inr t'"
proof -
  have "build t (take k cs @ drop k cs) = Inr t'" using assms by simp
  then show ?thesis unfolding build_append by (auto split: sum.splits)
qed

subsection \<open>The build invariant is kept\<close>

lemma built_ctor: "built (LogicalTile_ctor n0)"
  by (simp add: built_def LogicalTile_ctor_def)

lemma built_AddColumn:
  assumes "built t" and "AddColumn t p own oc idx = Inr t'"
  shows "built t'"
  using assms(1) AddColumn_Inr [OF assms(2)]
  by (auto simp: built_def unordered_set_insert_def)

lemma built_AddPositionList:
  assumes "built t" and "AddPositionList t pl = Inr (t', i)"
  shows "built t'"
proof (cases "position_lists t = []")
  case True
  with assms(1) have "valid_rows t = []" by (simp add: built_def)
  with True assms(1) AddPositionList_Inr [OF assms(2)] show ?thesis
    by (auto simp: built_def vector_resize_Nil)
next
  case False
  then have "position_lists t ! 0 \<in> set (position_lists t)" by simp
  with assms(1) have "length (position_lists t ! 0) = length (valid_rows t)"
    unfolding built_def by blast
  with False assms(1) AddPositionList_Inr [OF assms(2)] show ?thesis
    by (auto simp: built_def less_Suc_eq)
qed

lemma built_apply_build_op:
  assumes "built t" and "apply_build_op t c = Inr t'"
  shows "built t'"
  using assms
  by (cases c) (auto split: sum.splits dest: built_AddPositionList built_AddColumn)

lemma built_build:
  assumes "built t" and "build t cs = Inr t'"
  shows "built t'"
  using assms
  by (induction cs arbitrary: t) (auto split: sum.splits dest: built_apply_build_op)

lemma build_nonempty_position_lists:
  assumes "build t cs = Inr t'" and "position_lists t \<noteq> []"
  shows "position_lists t' \<noteq> [] \<and> position_lists t' ! 0 = position_lists t ! 0
         \<and> num_tuples t' = num_tuples t \<and> valid_rows t' = valid_rows t"
  using assms
proof (induction cs arbitrary: t)
  case Nil
  then show ?case by simp
next
  case (Cons c cs)
  from Cons.prems(1) obtain s where s: "apply_build_op t c = Inr s" and b: "build s cs = Inr t'"
    by (auto split: sum.splits)
  have "position_lists s \<noteq> [] \<and> position_lists s ! 0 = position_lists t ! 0
         \<and> num_tuples s = num_tuples t \<and> valid_rows s = valid_rows t"
  proof (cases c)
    case (AddPositionListOp pl)
    with s obtain i where "AddPositionList t pl = Inr (s, i)" by (auto split: sum.splits)
    from AddPositionList_Inr [OF this] Cons.prems(2) show ?thesis
      by (simp add: nth_append)
  next
    case (AddColumnOp p own oc idx)
    with s have "AddColumn t p own oc idx = Inr s" by simp
    from AddColumn_Inr [OF this] Cons.prems(2) show ?thesis by simp
  qed
  with Cons.IH [OF b] show ?case by simp
qed

lemma build_first_position_list:
  assumes "build t cs = Inr t'" and "position_lists t = []"
    and "first_position_list cs = Some pl"
  shows "position_lists t' \<noteq> [] \<and> position_lists t' ! 0 = pl \<and> num_tuples t' = length pl
         \<and> valid_rows t' = vector_resize (valid_rows t) (length pl) True"
proof (cases cs)
  case Nil
  with assms(3) show ?thesis by simp
next
  case (Cons c cs')
  from assms(1) Cons obtain s where s: "apply_build_op t c = Inr s" and b: "build s cs' = Inr t'"
    by (auto split: sum.splits)
  show ?thesis
  proof (cases c)
    case (AddPositionListOp pl')
    with assms(3) Cons have [simp]: "pl' = pl" by simp
    from s AddPositionListOp obtain i where "AddPositionList t pl = Inr (s, i)"
      by (auto split: sum.splits)
    from AddPositionList_Inr [OF this] assms(2)
    have "position_lists s = [pl]" "num_tuples s = length pl"
      "valid_rows s = vector_resize (valid_rows t) (length pl) True" by simp_all
    with build_nonempty_position_lists [OF b] show ?thesis by simp
  next
    case (AddColumnOp p own oc idx)
    with s have "AddColumn t p own oc idx = Inr s" by simp
    from AddColumn_Inr(1) [OF this] assms(2) show ?thesis by simp
  qed
qed

lemma build_ctor_starts_with_position_list:
  assumes "build t (c # cs) = Inr t'" and "position_lists t = []"
  shows "\<exists>pl. c = AddPositionListOp pl"
proof (cases c)
  case (AddColumnOp p own oc idx)
  with assms(1) obtain s where "AddColumn t p own oc idx = Inr s" by (auto split: sum.splits)
  from AddColumn_Inr(1) [OF this] assms(2) show ?thesis by simp
qed simp

subsection \<open>Auxiliary facts\<close>

lemma uint_less_int_iff: "uint (w :: 'a::len word) < int n \<longleftrightarrow> unat w < n"
  by (subst uint_nat) (rule of_nat_less_iff)

lemma count_list_distinct:
  "distinct xs \<Longrightarrow> count_list xs x = (if x \<in> set xs then 1 else 0)"
  by (induction xs) auto

lemma LogicalTile_dtor_eq: "LogicalTile_dtor t = owned_base_tiles t"
proof -
  have "fold (\<lambda>x deleted. deleted @ [x]) xs ys = ys @ xs" for xs ys :: "tile_ptr list"
    by (induction xs arbitrary: ys) simp_all
  then show ?thesis by (simp add: LogicalTile_dtor_def)
qed

lemma owned_apply_build_op:
  assumes "apply_build_op t c = Inr t'"
  shows "set (owned_base_tiles t') = set (owned_base_tiles t) \<union> ownership_taken [c]"
proof (cases c)
  case (AddPositionListOp pl)
  with assms obtain i where "AddPositionList t pl = Inr (t', i)" by (auto split: sum.splits)
  from AddPositionList_Inr(3) [OF this] AddPositionListOp show ?thesis by simp
next
  case (AddColumnOp p own oc idx)
  with assms have "AddColumn t p own oc idx = Inr t'" by simp
  from AddColumn_Inr(6) [OF this] AddColumnOp show ?thesis
    by (auto simp: unordered_set_insert_def)
qed

lemma ownership_taken_Cons:
  "ownership_taken (c # cs) = ownership_taken [c] \<union> ownership_taken cs"
  by (cases c) auto

lemma owned_build:
  assumes "build t cs = Inr t'"
  shows "set (owned_base_tiles t') = set (owned_base_tiles t) \<union> ownership_taken cs"
  using assms
proof (induction cs arbitrary: t)
  case Nil
  then show ?case by simp
next
  case (Cons c cs)
  from Cons.prems obtain s where s: "apply_build_op t c = Inr s" and b: "build s cs = Inr t'"
    by (auto split: sum.splits)
  from Cons.IH [OF b] owned_apply_build_op [OF s] show ?case
    by (subst ownership_taken_Cons) blast
qed

lemma build_sample: "build (LogicalTile_ctor 0) sample_build = Inr (sample_built :: 32 word LogicalTile)"
  by (simp add: sample_build_def sample_built_def LogicalTile_ctor_def AddPositionList_def
      AddColumn_def vector_resize_def unordered_set_insert_def Let_def)

subsection \<open>The scan of the iterator\<close>

lemma next_valid_step:
  "n < length rows \<Longrightarrow> \<not> rows ! n \<Longrightarrow> next_valid rows n = next_valid rows (Suc n)"
  by (subst next_valid.simps) simp

lemma next_valid_stop:
  "\<not> (n < length rows \<and> \<not> rows ! n) \<Longrightarrow> next_valid rows n = n"
  by (subst next_valid.simps) auto

lemma next_valid_bounds:
  "n \<le> length rows \<Longrightarrow> n \<le> next_valid rows n \<and> next_valid rows n \<le> length rows"
proof (induction rows n rule: next_valid.induct)
  case (1 rows n)
  show ?case
  proof (cases "n < length rows \<and> \<not> rows ! n")
    case True
    with "1.IH" have "Suc n \<le> next_valid rows (Suc n) \<and> next_valid rows (Suc n) \<le> length rows"
      by simp
    with True show ?thesis by (simp add: next_valid_step)
  next
    case False
    with "1.prems" show ?thesis by (simp add: next_valid_stop)
  qed
qed

lemma next_valid_valid:
  "next_valid rows n < length rows \<Longrightarrow> rows ! next_valid rows n"
proof (induction rows n rule: next_valid.induct)
  case (1 rows n)
  show ?case
  proof (cases "n < length rows \<and> \<not> rows ! n")
    case True
    with "1.prems" "1.IH" show ?thesis by (simp add: next_valid_step)
  next
    case False
    then have "next_valid rows n = n" by (rule next_valid_stop)
    with "1.prems" False show ?thesis by auto
  qed
qed

lemma filter_next_valid:
  "filter (\<lambda>i. rows ! i) [n..<length rows] =
   filter (\<lambda>i. rows ! i) [next_valid rows n..<length rows]"
proof (induction rows n rule: next_valid.induct)
  case (1 rows n)
  show ?case
  proof (cases "n < length rows \<and> \<not> rows ! n")
    case True
    then have "filter (\<lambda>i. rows ! i) [n..<length rows] =
               filter (\<lambda>i. rows ! i) [Suc n..<length rows]"
      by (simp add: upt_conv_Cons)
    with "1.IH" True show ?thesis by (simp add: next_valid_step)
  next
    case False
    then have "next_valid rows n = n" by (rule next_valid_stop)
    then show ?thesis by simp
  qed
qed

lemma next_valid_all_invalid:
  "\<forall>i. n \<le> i \<and> i < length rows \<longrightarrow> \<not> rows ! i \<Longrightarrow> n \<le> length rows
   \<Longrightarrow> next_valid rows n = length rows"
proof (induction rows n rule: next_valid.induct)
  case (1 rows n)
  show ?case
  proof (cases "n < length rows")
    case True
    with "1.prems" have nv: "\<not> rows ! n" by simp
    with True "1.IH" "1.prems" have "next_valid rows (Suc n) = length rows" by simp
    with True nv show ?thesis by (simp add: next_valid_step)
  next
    case False
    with "1.prems" show ?thesis by (simp add: next_valid_stop)
  qed
qed

lemma skip_invalid_step:
  "unat p < length rows \<Longrightarrow> \<not> rows ! unat p \<Longrightarrow> skip_invalid rows p = skip_invalid rows (p + 1)"
  by (subst skip_invalid.simps) simp

lemma skip_invalid_stop:
  "\<not> (unat p < length rows \<and> \<not> rows ! unat p) \<Longrightarrow> skip_invalid rows p = Some p"
  by (subst skip_invalid.simps) auto

lemma unat_plus_one:
  fixes p :: "'w::len word"
  assumes "Suc (unat p) < 2 ^ LENGTH('w)"
  shows "unat (p + 1) = Suc (unat p)"
proof -
  have "unat p + unat (1 :: 'w word) < 2 ^ LENGTH('w)" using assms by simp
  then have "unat (p + 1) = unat p + unat (1 :: 'w word)" by (rule unat_add_lem [THEN iffD1])
  then show ?thesis by simp
qed

lemma skip_invalid_next_valid:
  fixes p :: "'w::len word"
  assumes "length rows < 2 ^ LENGTH('w)" and "unat p \<le> length rows"
  shows "skip_invalid rows p = Some (of_nat (next_valid rows (unat p)))"
  using assms
proof (induction rows "unat p" arbitrary: p rule: next_valid.induct)
  case (1 rows p)
  show ?case
  proof (cases "unat p < length rows \<and> \<not> rows ! unat p")
    case True
    then have "Suc (unat p) < 2 ^ LENGTH('w)" using "1.prems"(1) by linarith
    then have u: "unat (p + 1) = Suc (unat p)" by (rule unat_plus_one)
    with True have "unat (p + 1) \<le> length rows" by simp
    with "1.hyps" [OF True u [symmetric]] "1.prems"(1)
    have "skip_invalid rows (p + 1) = Some (of_nat (next_valid rows (unat (p + 1))))" by simp
    with True u show ?thesis
      by (simp add: skip_invalid_step next_valid_step)
  next
    case False
    then show ?thesis by (simp add: skip_invalid_stop next_valid_stop)
  qed
qed

subsection \<open>The range loop\<close>

lemma iterate_from_end:
  "iterate_from INVALID_ID this t \<lparr>tile = this, pos = INVALID_ID\<rparr> = Some []"
  by (subst iterate_from.simps) (simp add: tile_end_def iterator_ctor_def iterator_neq_def)

lemma iterate_from_row:
  fixes INVALID_ID :: "'w::len word"
  assumes "length (valid_rows t) \<le> unat INVALID_ID"
    and "n < length (valid_rows t)" and "valid_rows t ! n"
  shows "iterate_from INVALID_ID this t \<lparr>tile = this, pos = of_nat n\<rparr> =
           Some (map of_nat (filter (\<lambda>i. valid_rows t ! i) [n..<length (valid_rows t)]))"
  using assms(2,3)
proof (induction "length (valid_rows t) - n" arbitrary: n rule: less_induct)
  case less
  let ?rows = "valid_rows t"
  let ?L = "length ?rows"
  let ?P = "\<lambda>i. ?rows ! i"
  let ?m = "next_valid ?rows (Suc n)"
  have lt: "?L < 2 ^ LENGTH('w)"
    using assms(1) unsigned_less [of INVALID_ID] by (rule le_less_trans)
  have un: "unat (of_nat n :: 'w word) = n"
    using less.prems(1) lt by (simp add: unat_of_nat)
  have ne: "(of_nat n :: 'w word) \<noteq> INVALID_ID"
    using un less.prems(1) assms(1) by auto
  have "Suc (unat (of_nat n :: 'w word)) < 2 ^ LENGTH('w)"
    using un less.prems(1) lt by simp
  then have u1: "unat (of_nat n + 1 :: 'w word) = Suc n" using un by (simp add: unat_plus_one)
  have m: "Suc n \<le> ?m \<and> ?m \<le> ?L"
    using next_valid_bounds [of "Suc n" ?rows] less.prems(1) by simp
  have um: "unat (of_nat ?m :: 'w word) = ?m"
    using m lt by (simp add: unat_of_nat)
  have skip: "skip_invalid ?rows (of_nat n + 1 :: 'w word) = Some (of_nat ?m)"
    using skip_invalid_next_valid [OF lt, of "of_nat n + 1"] u1 less.prems(1) by simp
  have flt: "filter ?P [n..<?L] = n # filter ?P [?m..<?L]"
    using less.prems filter_next_valid [of ?rows "Suc n"] by (simp add: upt_conv_Cons)
  have rest: "iterate_from INVALID_ID this t
                \<lparr>tile = this, pos = (if ?m = ?L then INVALID_ID else of_nat ?m)\<rparr> =
              Some (map of_nat (filter ?P [?m..<?L]))"
  proof (cases "?m = ?L")
    case True
    then show ?thesis by (simp add: iterate_from_end)
  next
    case False
    with m have ml: "?m < ?L" by simp
    then have v: "?rows ! ?m" by (rule next_valid_valid)
    from m less.prems(1) have "?L - ?m < ?L - n" by linarith
    from less.hyps [OF this ml v] False show ?thesis by simp
  qed
  show ?case
    by (subst iterate_from.simps)
      (simp add: tile_end_def iterator_ctor_def iterator_neq_def ne iterator_incr_def skip um
        rest iterator_deref_def flt)
qed

lemma iterate_eq:
  fixes INVALID_ID :: "'w::len word"
  assumes "length (valid_rows t) \<le> unat INVALID_ID"
  shows "iterate INVALID_ID this t =
           Some (map of_nat (filter (\<lambda>i. valid_rows t ! i) [0..<length (valid_rows t)]))"
proof -
  let ?rows = "valid_rows t"
  let ?L = "length ?rows"
  let ?P = "\<lambda>i. ?rows ! i"
  let ?m = "next_valid ?rows 0"
  have lt: "?L < 2 ^ LENGTH('w)"
    using assms(1) unsigned_less [of INVALID_ID] by (rule le_less_trans)
  have m: "?m \<le> ?L" using next_valid_bounds [of 0 ?rows] by simp
  have um: "unat (of_nat ?m :: 'w word) = ?m"
    using m lt by (simp add: unat_of_nat)
  have skip: "skip_invalid ?rows (0 :: 'w word) = Some (of_nat ?m)"
    using skip_invalid_next_valid [OF lt, of 0] by simp
  have flt: "filter ?P [0..<?L] = filter ?P [?m..<?L]"
    by (rule filter_next_valid)
  have "iterate_from INVALID_ID this t
                \<lparr>tile = this, pos = (if ?m = ?L then INVALID_ID else of_nat ?m)\<rparr> =
              Some (map of_nat (filter ?P [?m..<?L]))"
  proof (cases "?m = ?L")
    case True
    then show ?thesis by (simp add: iterate_from_end)
  next
    case False
    with m have ml: "?m < ?L" by simp
    then have "?rows ! ?m" by (rule next_valid_valid)
    with iterate_from_row [OF assms ml] False show ?thesis by simp
  qed
  then show ?thesis
    by (simp add: iterate_def tile_begin_def iterator_ctor_def skip um flt)
qed

subsection \<open>Materialization\<close>

lemma SetValue_Inr:
  "row < length d \<Longrightarrow> SetValue d row col v = Inr (d[row := (d ! row)(col \<mapsto> v)])"
  by (simp add: SetValue_def)

lemma copy_column_result:
  assumes "\<And>r. r \<in> set rows \<Longrightarrow> GetValue gv iv src old r = Inr (f r)"
    and "j + length rows \<le> length d"
  shows "\<exists>d'. copy_column gv iv src old new rows j d = Inr d' \<and> length d' = length d
           \<and> (\<forall>i < length d. \<forall>k. (d' ! i) k =
                 (if j \<le> i \<and> i < j + length rows \<and> k = new then Some (f (rows ! (i - j)))
                  else (d ! i) k))"
  using assms
proof (induction rows arbitrary: j d)
  case Nil
  then show ?case by auto
next
  case (Cons r rows)
  let ?d1 = "d[j := (d ! j)(new \<mapsto> f r)]"
  have j: "j < length d" using Cons.prems(2) by simp
  have g: "GetValue gv iv src old r = Inr (f r)" using Cons.prems(1) by simp
  have "\<And>r'. r' \<in> set rows \<Longrightarrow> GetValue gv iv src old r' = Inr (f r')"
    using Cons.prems(1) by simp
  moreover have "Suc j + length rows \<le> length ?d1" using Cons.prems(2) by simp
  ultimately obtain d' where d': "copy_column gv iv src old new rows (Suc j) ?d1 = Inr d'"
    and l: "length d' = length ?d1"
    and c: "\<forall>i < length ?d1. \<forall>k. (d' ! i) k =
                 (if Suc j \<le> i \<and> i < Suc j + length rows \<and> k = new
                  then Some (f (rows ! (i - Suc j))) else (?d1 ! i) k)"
    using Cons.IH [of "Suc j" ?d1] by blast
  have "copy_column gv iv src old new (r # rows) j d = Inr d'"
    using g j d' by (simp add: SetValue_Inr)
  moreover have "length d' = length d" using l by simp
  moreover have "(d' ! i) k =
                 (if j \<le> i \<and> i < j + length (r # rows) \<and> k = new
                  then Some (f ((r # rows) ! (i - j))) else (d ! i) k)"
    if "i < length d" for i k
  proof (cases "i = j")
    case True
    with c that show ?thesis by simp
  next
    case False
    with c that show ?thesis by (auto simp: nth_Cons' Suc_le_eq)
  qed
  ultimately show ?case by blast
qed


lemma copy_columns_result:
  assumes "\<And>old r. old \<in> set cols \<Longrightarrow> r \<in> set rows \<Longrightarrow> GetValue gv iv src old r = Inr (f old r)"
    and "\<And>old. old \<in> set cols \<Longrightarrow> \<exists>k. map_of M old = Some k"
    and "\<And>o1 o2 k. map_of M o1 = Some k \<Longrightarrow> map_of M o2 = Some k \<Longrightarrow> o1 = o2"
    and "length d = length rows"
  shows "\<exists>d'. copy_columns gv iv src M cols rows d = Inr d' \<and> length d' = length d
           \<and> (\<forall>i < length rows. \<forall>k.
                 (\<forall>old \<in> set cols. map_of M old = Some k \<longrightarrow> (d' ! i) k = Some (f old (rows ! i)))
               \<and> ((\<forall>old \<in> set cols. map_of M old \<noteq> Some k) \<longrightarrow> (d' ! i) k = (d ! i) k))"
  using assms(1,2,4)
proof (induction cols arbitrary: d)
  case Nil
  then show ?case by simp
next
  case (Cons c cols)
  from Cons.prems(2) obtain new where new: "map_of M c = Some new" by auto
  have "\<And>r. r \<in> set rows \<Longrightarrow> GetValue gv iv src c r = Inr (f c r)"
    using Cons.prems(1) by simp
  moreover have "0 + length rows \<le> length d" using Cons.prems(3) by simp
  ultimately obtain d1 where d1: "copy_column gv iv src c new rows 0 d = Inr d1"
    and l1: "length d1 = length d"
    and c1: "\<forall>i < length d. \<forall>k. (d1 ! i) k =
                 (if 0 \<le> i \<and> i < 0 + length rows \<and> k = new then Some (f c (rows ! (i - 0)))
                  else (d ! i) k)"
    using copy_column_result [of rows gv iv src c "f c" 0 d new] by blast
  have "\<And>old r. old \<in> set cols \<Longrightarrow> r \<in> set rows \<Longrightarrow> GetValue gv iv src old r = Inr (f old r)"
    using Cons.prems(1) by simp
  moreover have "\<And>old. old \<in> set cols \<Longrightarrow> \<exists>k. map_of M old = Some k"
    using Cons.prems(2) by simp
  moreover have "length d1 = length rows" using l1 Cons.prems(3) by simp
  ultimately obtain d' where d': "copy_columns gv iv src M cols rows d1 = Inr d'"
    and l': "length d' = length d1"
    and c': "\<forall>i < length rows. \<forall>k.
                 (\<forall>old \<in> set cols. map_of M old = Some k \<longrightarrow> (d' ! i) k = Some (f old (rows ! i)))
               \<and> ((\<forall>old \<in> set cols. map_of M old \<noteq> Some k) \<longrightarrow> (d' ! i) k = (d1 ! i) k)"
    using Cons.IH [of d1] by blast
  have run: "copy_columns gv iv src M (c # cols) rows d = Inr d'"
    using new d1 d' by simp
  have len: "length d' = length d" using l' l1 by simp
  have p1: "(d' ! i) k = Some (f old (rows ! i))"
    if "i < length rows" and "old \<in> set (c # cols)" and "map_of M old = Some k" for i k old
  proof (cases "old \<in> set cols")
    case True
    with c' that show ?thesis by blast
  next
    case False
    with that have [simp]: "old = c" "k = new" using new by auto
    have "\<forall>old' \<in> set cols. map_of M old' \<noteq> Some new"
    proof
      fix old' assume o: "old' \<in> set cols"
      show "map_of M old' \<noteq> Some new"
      proof
        assume "map_of M old' = Some new"
        with new assms(3) [of old' new c] have "old' = c" by simp
        with o False show False by simp
      qed
    qed
    with c' that(1) have "(d' ! i) new = (d1 ! i) new" by blast
    also have "\<dots> = Some (f c (rows ! i))" using c1 that(1) Cons.prems(3) by simp
    finally show ?thesis by simp
  qed
  have p2: "(d' ! i) k = (d ! i) k"
    if "i < length rows" and "\<forall>old \<in> set (c # cols). map_of M old \<noteq> Some k" for i k
  proof -
    from that(2) new have kn: "k \<noteq> new" by auto
    from that(2) have "\<forall>old \<in> set cols. map_of M old \<noteq> Some k" by simp
    with c' that(1) have "(d' ! i) k = (d1 ! i) k" by blast
    also have "\<dots> = (d ! i) k" using c1 that(1) Cons.prems(3) kn by simp
    finally show ?thesis .
  qed
  from run len p1 p2 show ?case by blast
qed

lemma copy_columns_append:
  "copy_columns gv iv src M (xs @ ys) rows d =
     (case copy_columns gv iv src M xs rows d of
        Inl e \<Rightarrow> Inl e
      | Inr d1 \<Rightarrow> copy_columns gv iv src M ys rows d1)"
  by (induction xs arbitrary: d) (auto split: option.splits sum.splits)

lemma MaterializeByTiles_eq:
  "MaterializeByTiles gv iv src M tc rows d =
     copy_columns gv iv src M (concat (map snd tc)) rows d"
  by (induction tc arbitrary: d) (auto simp: copy_columns_append split: sum.splits)

lemma set_tile_to_cols_add:
  "set (concat (map snd (tile_to_cols_add p c m))) = insert c (set (concat (map snd m)))"
  by (induction p c m rule: tile_to_cols_add.induct) (simp_all del: set_concat)

lemma GenerateTileToColMap_result:
  assumes "\<forall>e \<in> set M. unat (fst e) < length (schema src)"
  shows "\<exists>tc. GenerateTileToColMap M src m = Inr tc
           \<and> set (concat (map snd tc)) = set (concat (map snd m)) \<union> fst ` set M"
  using assms
proof (induction M arbitrary: m)
  case Nil
  then show ?case by simp
next
  case (Cons e M)
  obtain old new where e: "e = (old, new)" by (cases e)
  have "unat old < length (schema src)" using Cons.prems e by simp
  then have g: "GetBaseTile src old = Inr (base_tile (schema src ! unat old))"
    by (simp add: GetBaseTile_def)
  have "\<forall>e \<in> set M. unat (fst e) < length (schema src)"
    using Cons.prems by simp
  from Cons.IH [OF this, of "tile_to_cols_add (base_tile (schema src ! unat old)) old m"]
  obtain tc where "GenerateTileToColMap M src
         (tile_to_cols_add (base_tile (schema src ! unat old)) old m) = Inr tc"
    and "set (concat (map snd tc)) =
         insert old (set (concat (map snd m))) \<union> fst ` set M"
    unfolding set_tile_to_cols_add by blast
  then show ?case using e g by (simp del: set_concat)
qed

lemma GetValue_well_formed:
  assumes "well_formed t" and "unat c < length (schema t)"
    and "unat r < length (valid_rows t)" and "valid_rows t ! unat r"
  shows "GetValue gv iv t c r =
           Inr (gv (base_tile (schema t ! unat c))
                  (position_lists t ! position_list_idx (schema t ! unat c) ! unat r)
                  (origin_column_id (schema t ! unat c)))"
proof -
  let ?cp = "schema t ! unat c"
  have "?cp \<in> set (schema t)" using assms(2) by simp
  with assms(1) have idx: "position_list_idx ?cp < length (position_lists t)"
    unfolding well_formed_def by blast
  then have "position_lists t ! position_list_idx ?cp \<in> set (position_lists t)" by simp
  with assms(1) have "length (position_lists t ! position_list_idx ?cp) = length (valid_rows t)"
    unfolding well_formed_def by blast
  with assms(3) have "unat r < length (position_lists t ! position_list_idx ?cp)" by simp
  with assms(2,3,4) idx show ?thesis by (simp add: GetValue_def Let_def)
qed


lemma map_of_injective:
  assumes "distinct (map snd M)" and "map_of M o1 = Some k" and "map_of M o2 = Some k"
  shows "o1 = o2"
proof -
  from assms(2,3) have "(o1, k) \<in> set M" "(o2, k) \<in> set M" by (auto dest: map_of_SomeD)
  moreover from assms(1) have "inj_on snd (set M)" by (simp add: distinct_map)
  ultimately have "(o1, k) = (o2, k)" by (intro inj_onD [of snd "set M"]) simp_all
  then show ?thesis by simp
qed

lemma iterate_rows_valid:
  fixes INVALID_ID :: "'w::len word"
  assumes "length (valid_rows t) \<le> unat INVALID_ID"
  shows "\<exists>rows. iterate INVALID_ID this t = Some rows
           \<and> (\<forall>r \<in> set rows. unat r < length (valid_rows t) \<and> valid_rows t ! unat r)"
proof -
  have lt: "length (valid_rows t) < 2 ^ LENGTH('w)"
    using assms unsigned_less [of INVALID_ID] by (rule le_less_trans)
  have "unat (of_nat i :: 'w word) = i" if "i < length (valid_rows t)" for i
    using that lt by (simp add: unat_of_nat)
  then have "\<forall>r \<in> set (map of_nat (filter (\<lambda>i. valid_rows t ! i) [0..<length (valid_rows t)])
                          :: 'w word list).
               unat r < length (valid_rows t) \<and> valid_rows t ! unat r"
    by auto
  with iterate_eq [OF assms, of this] show ?thesis by blast
qed

lemma iterate_sample_tile:
  "iterate (4294967295 :: 32 word) 3 sample_tile = Some [0, 2]"
  by (simp add: iterate_def tile_begin_def tile_end_def iterator_ctor_def sample_tile_def
      skip_invalid.simps iterate_from.simps iterator_incr_def iterator_neq_def
      iterator_deref_def)

section \<open>Theorems\<close>

subsection \<open>Reading a freshly built tile\<close>

text \<open>
  C1. Let a tile be built from a new one by any sequence of successful
  \<open>AddPositionList\<close> and \<open>AddColumn\<close> calls, no row being invalidated. For every column
  id \<open>c < NumCols()\<close> and row id \<open>r < NumTuples()\<close>, \<open>GetValue(c, r)\<close> succeeds and is the
  value that the physical tile \<open>schema[c].base_tile\<close> returns at column
  \<open>schema[c].origin_column_id\<close> and row
  \<open>position_lists[schema[c].position_list_idx][r]\<close>; both indices used are in range.
\<close>

theorem GetValue_fresh_tile:
  assumes "build (LogicalTile_ctor n0) cs = Inr t"
    and "uint c < NumCols t"
    and "uint r < NumTuples t"
  shows "position_list_idx (schema t ! unat c) < length (position_lists t)
       \<and> unat r < length (position_lists t ! position_list_idx (schema t ! unat c))
       \<and> GetValue tile_GetValue invalid_value t c r =
           Inr (tile_GetValue (base_tile (schema t ! unat c))
                  (position_lists t ! position_list_idx (schema t ! unat c) ! unat r)
                  (origin_column_id (schema t ! unat c)))"
proof -
  let ?cp = "schema t ! unat c"
  have b: "built t" using built_build [OF built_ctor assms(1)] .
  have c: "unat c < length (schema t)"
    using assms(2) by (simp add: NumCols_def uint_less_int_iff)
  then have "?cp \<in> set (schema t)" by simp
  with b have idx: "position_list_idx ?cp < length (position_lists t)"
    unfolding built_def by blast
  then have ne: "position_lists t \<noteq> []" by auto
  with b have n: "length (valid_rows t) = num_tuples t" by (simp add: built_def)
  with assms(3) have r: "unat r < length (valid_rows t)"
    by (simp add: NumTuples_def uint_less_int_iff)
  then have "valid_rows t ! unat r \<in> set (valid_rows t)" by simp
  with b have v: "valid_rows t ! unat r" unfolding built_def by blast
  from idx have "position_lists t ! position_list_idx ?cp \<in> set (position_lists t)" by simp
  with b have "length (position_lists t ! position_list_idx ?cp) = length (valid_rows t)"
    unfolding built_def by blast
  with r have l: "unat r < length (position_lists t ! position_list_idx ?cp)" by simp
  from c r v idx l show ?thesis by (simp add: GetValue_def Let_def)
qed

theorem GetValue_fresh_tile_witness:
  "build (LogicalTile_ctor 0) sample_build = Inr (sample_built :: 32 word LogicalTile)
   \<and> uint (1 :: 32 word) < NumCols (sample_built :: 32 word LogicalTile)
   \<and> uint (0 :: 32 word) < NumTuples (sample_built :: 32 word LogicalTile)
   \<and> GetValue (\<lambda>p row col. (p, row, col)) (0, 0, 0) (sample_built :: 32 word LogicalTile) 1 0 =
       Inr (7, 2, 1)"
proof -
  have h2: "uint (1 :: 32 word) < NumCols (sample_built :: 32 word LogicalTile)"
    by (simp add: NumCols_def sample_built_def)
  have h3: "uint (0 :: 32 word) < NumTuples (sample_built :: 32 word LogicalTile)"
    by (simp add: NumTuples_def sample_built_def)
  from GetValue_fresh_tile [OF build_sample h2 h3, of "\<lambda>p row col. (p, row, col)" "(0, 0, 0)"]
  have "GetValue (\<lambda>p row col. (p, row, col)) (0, 0, 0) (sample_built :: 32 word LogicalTile) 1 0 =
       Inr (7, 2, 1)"
    by (simp add: sample_built_def)
  with build_sample h2 h3 show ?thesis by blast
qed

subsection \<open>The row count and the length check\<close>

text \<open>
  C3. After a successful construction whose first position list is \<open>pl\<close>,
  \<open>NumTuples()\<close> is the length of \<open>pl\<close>. A further \<open>AddPositionList\<close> call with a list of
  another length fails its assertion, so the construction fails; a call that succeeds has
  a list of that length and stores it as it is, neither cut nor filled up.
\<close>

theorem NumTuples_first_position_list:
  assumes "build (LogicalTile_ctor n0) cs = Inr t"
    and "first_position_list cs = Some pl"
  shows "NumTuples t = int (length pl)
       \<and> (\<forall>pl'. length pl' \<noteq> length pl \<longrightarrow>
             AddPositionList t pl' = Inl AssertionFailure
           \<and> build (LogicalTile_ctor n0) (cs @ [AddPositionListOp pl']) = Inl AssertionFailure)
       \<and> (\<forall>pl' t' i. AddPositionList t pl' = Inr (t', i) \<longrightarrow>
             length pl' = length pl \<and> position_lists t' = position_lists t @ [pl']
           \<and> NumTuples t' = NumTuples t)"
proof -
  have e: "position_lists (LogicalTile_ctor n0 :: 'a word LogicalTile) = []"
    by (simp add: LogicalTile_ctor_def)
  from build_first_position_list [OF assms(1) e assms(2)]
  have ne: "position_lists t \<noteq> []" and z: "position_lists t ! 0 = pl"
    and n: "num_tuples t = length pl" by simp_all
  have rej: "AddPositionList t pl' = Inl AssertionFailure" if "length pl' \<noteq> length pl" for pl'
    using that ne z by (auto simp: AddPositionList_def)
  have acc: "length pl' = length pl \<and> position_lists t' = position_lists t @ [pl']
           \<and> NumTuples t' = NumTuples t" if "AddPositionList t pl' = Inr (t', i)" for pl' t' i
    using AddPositionList_Inr [OF that] ne z by (simp add: NumTuples_def)
  have rej': "build (LogicalTile_ctor n0) (cs @ [AddPositionListOp pl']) = Inl AssertionFailure"
    if "length pl' \<noteq> length pl" for pl'
    using rej [OF that] assms(1) by (simp add: build_append)
  have "NumTuples t = int (length pl)" using n by (simp add: NumTuples_def)
  with rej rej' acc show ?thesis by blast
qed

theorem NumTuples_first_position_list_witness:
  "build (LogicalTile_ctor 0) sample_build = Inr (sample_built :: 32 word LogicalTile)
   \<and> first_position_list (sample_build :: 32 word build_op list) = Some [2, 0, 1]
   \<and> NumTuples (sample_built :: 32 word LogicalTile) = 3
   \<and> AddPositionList (sample_built :: 32 word LogicalTile) [4, 5] = Inl AssertionFailure"
proof -
  have h2: "first_position_list (sample_build :: 32 word build_op list) = Some [2, 0, 1]"
    by (simp add: sample_build_def)
  from NumTuples_first_position_list [OF build_sample h2]
  have "NumTuples (sample_built :: 32 word LogicalTile) = 3"
    and "AddPositionList (sample_built :: 32 word LogicalTile) [4, 5] = Inl AssertionFailure"
    by simp_all
  with build_sample h2 show ?thesis by blast
qed

subsection \<open>Invalidated rows\<close>

text \<open>
  C4. For every tile, every column id \<open>c < NumCols()\<close> and every row id \<open>r\<close> whose entry
  of \<open>valid_rows\<close> is false, \<open>GetValue(c, r)\<close> returns the invalid-value sentinel and
  \<open>GetTuple(c, r)\<close> returns the null tuple. Nothing is assumed of the schema or of the
  position lists, and the result is the same for every pair of physical-tile accessors:
  no physical tile is consulted.
\<close>

theorem invalid_row_sentinel:
  assumes "uint c < NumCols t"
    and "unat r < length (valid_rows t)"
    and "\<not> valid_rows t ! unat r"
  shows "GetValue tile_GetValue invalid_value t c r = Inr invalid_value
       \<and> GetTuple tile_GetTuple t c r = Inr None"
  using assms by (simp add: GetValue_def GetTuple_def NumCols_def uint_less_int_iff)

theorem invalid_row_sentinel_witness:
  "uint (1 :: 32 word) < NumCols (sample_tile :: 32 word LogicalTile)
   \<and> unat (1 :: 32 word) < length (valid_rows (sample_tile :: 32 word LogicalTile))
   \<and> \<not> valid_rows (sample_tile :: 32 word LogicalTile) ! unat (1 :: 32 word)
   \<and> GetValue (\<lambda>p row col. (p, row, col)) (0, 0, 0) (sample_tile :: 32 word LogicalTile) 1 1 =
       Inr (0, 0, 0)
   \<and> GetTuple (\<lambda>p row. Some (p, row)) (sample_tile :: 32 word LogicalTile) 1 1 = Inr None"
proof -
  have h1: "uint (1 :: 32 word) < NumCols (sample_tile :: 32 word LogicalTile)"
    by (simp add: NumCols_def sample_tile_def)
  have h2: "unat (1 :: 32 word) < length (valid_rows (sample_tile :: 32 word LogicalTile))"
    by (simp add: sample_tile_def)
  have h3: "\<not> valid_rows (sample_tile :: 32 word LogicalTile) ! unat (1 :: 32 word)"
    by (simp add: sample_tile_def)
  from invalid_row_sentinel [OF h1 h2 h3, of "\<lambda>p row col. (p, row, col)" "(0, 0, 0)"
      "\<lambda>p row. Some (p, row)"] h1 h2 h3
  show ?thesis by blast
qed

subsection \<open>Destruction\<close>

text \<open>
  C5. For a tile built by any successful sequence of build calls, the destructor passes
  to \<^verbatim>\<open>delete\<close> exactly once every physical tile that some \<open>AddColumn\<close> call handed
  over with \<open>take_ownership\<close> set, however many columns refer to it, and never a tile
  that was only passed with \<open>take_ownership\<close> unset.
\<close>

theorem dtor_releases_owned_once:
  assumes "build (LogicalTile_ctor n0) cs = Inr t"
  shows "count_list (LogicalTile_dtor t) p = (if p \<in> ownership_taken cs then 1 else 0)"
proof -
  have "built t" using built_build [OF built_ctor assms] .
  then have d: "distinct (LogicalTile_dtor t)" by (simp add: built_def LogicalTile_dtor_eq)
  have "set (LogicalTile_dtor t) = ownership_taken cs"
    using owned_build [OF assms] by (simp add: LogicalTile_dtor_eq LogicalTile_ctor_def)
  with d show ?thesis by (simp add: count_list_distinct)
qed

theorem dtor_releases_owned_once_witness:
  "build (LogicalTile_ctor 0) sample_build = Inr (sample_built :: 32 word LogicalTile)
   \<and> count_list (LogicalTile_dtor (sample_built :: 32 word LogicalTile)) 7 = 1
   \<and> count_list (LogicalTile_dtor (sample_built :: 32 word LogicalTile)) 8 = 0"
proof -
  have "ownership_taken (sample_build :: 32 word build_op list) = {7}"
    by (simp add: sample_build_def)
  with dtor_releases_owned_once [OF build_sample, of 7]
    dtor_releases_owned_once [OF build_sample, of 8] build_sample
  show ?thesis by simp
qed

subsection \<open>The sort stage's configuration\<close>

text \<open>
  C7, as the code has it. The constructor of the order-by plan node accepts every
  configuration, whatever the lengths of the sort-key and descending-flag sequences, and
  the accessors return all four arguments as they were given: the plan node makes no
  length check.
\<close>

theorem OrderByNode_ctor_accepts:
  "\<exists>n. OrderByNode_ctor ks fs out b = Inr n
      \<and> GetSortKeys n = ks \<and> GetDescendFlags n = fs
      \<and> GetOutputColumnIds n = out \<and> GetBackend n = b"
  by (simp add: OrderByNode_ctor_def GetSortKeys_def GetDescendFlags_def
      GetOutputColumnIds_def GetBackend_def)

text \<open>
  The claim as stated fails: one sort key and no descending flag give a plan node.
\<close>

theorem OrderByNode_mismatch_counterexample:
  "length [5 :: 32 word] \<noteq> length ([] :: bool list)
   \<and> OrderByNode_ctor [5 :: 32 word] [] [5] 0 =
       Inr \<lparr>sort_keys = [5], descend_flags = [], output_column_ids = [5], backend = 0\<rparr>"
  by (simp add: OrderByNode_ctor_def)

subsection \<open>The validity vector during the build phase\<close>

text \<open>
  C8. Along every successful build sequence that starts from a new tile, the length of
  \<open>valid_rows\<close> is \<open>num_tuples\<close> after each operation. The first operation of such a
  sequence is the first \<open>AddPositionList\<close> call, and right after it \<open>valid_rows\<close> has one
  entry per element of the list, each of them true.
\<close>

theorem valid_rows_length_invariant:
  assumes "build (LogicalTile_ctor n0) cs = Inr t"
  shows "(\<forall>k. 0 < k \<and> k \<le> length cs \<longrightarrow>
            (\<exists>s. build (LogicalTile_ctor n0) (take k cs) = Inr s
                \<and> length (valid_rows s) = num_tuples s))
       \<and> (cs \<noteq> [] \<longrightarrow>
            (\<exists>pl s i. hd cs = AddPositionListOp pl
                \<and> AddPositionList (LogicalTile_ctor n0) pl = Inr (s, i)
                \<and> length (valid_rows s) = length pl
                \<and> (\<forall>r < length (valid_rows s). valid_rows s ! r)))"
proof (intro conjI allI impI)
  fix k assume k: "0 < k \<and> k \<le> length cs"
  from build_take [OF assms, of k] obtain s
    where s: "build (LogicalTile_ctor n0) (take k cs) = Inr s" by blast
  from k obtain c cs' where tk: "take k cs = c # cs'" by (cases "take k cs") auto
  have e: "position_lists (LogicalTile_ctor n0 :: 'a word LogicalTile) = []"
    by (simp add: LogicalTile_ctor_def)
  from build_ctor_starts_with_position_list [OF s [unfolded tk] e]
  obtain pl where "first_position_list (take k cs) = Some pl" unfolding tk by auto
  from build_first_position_list [OF s e this] have "position_lists s \<noteq> []" by simp
  moreover have "built s" using built_build [OF built_ctor s] .
  ultimately have "length (valid_rows s) = num_tuples s" by (simp add: built_def)
  with s show "\<exists>s. build (LogicalTile_ctor n0) (take k cs) = Inr s
                \<and> length (valid_rows s) = num_tuples s" by blast
next
  assume "cs \<noteq> []"
  then obtain c cs' where cs: "cs = c # cs'" by (cases cs) auto
  have e: "position_lists (LogicalTile_ctor n0 :: 'a word LogicalTile) = []"
    by (simp add: LogicalTile_ctor_def)
  from build_ctor_starts_with_position_list [OF assms [unfolded cs] e]
  obtain pl where c: "c = AddPositionListOp pl" by blast
  have "AddPositionList (LogicalTile_ctor n0 :: 'a word LogicalTile) pl =
          Inr ((LogicalTile_ctor n0)\<lparr>num_tuples := length pl,
                 valid_rows := replicate (length pl) True, position_lists := [pl]\<rparr>, 0)"
    by (simp add: AddPositionList_def LogicalTile_ctor_def vector_resize_Nil)
  with cs c show "\<exists>pl s i. hd cs = AddPositionListOp pl
                \<and> AddPositionList (LogicalTile_ctor n0) pl = Inr (s, i)
                \<and> length (valid_rows s) = length pl
                \<and> (\<forall>r < length (valid_rows s). valid_rows s ! r)"
    by simp
qed

theorem valid_rows_length_invariant_witness:
  "build (LogicalTile_ctor 0) sample_build = Inr (sample_built :: 32 word LogicalTile)
   \<and> (\<exists>s. build (LogicalTile_ctor 0) (take 2 (sample_build :: 32 word build_op list)) = Inr s
          \<and> length (valid_rows s) = num_tuples s)
   \<and> (\<exists>pl s i. hd (sample_build :: 32 word build_op list) = AddPositionListOp pl
          \<and> AddPositionList (LogicalTile_ctor 0) pl = Inr (s, i)
          \<and> length (valid_rows s) = length pl
          \<and> (\<forall>r < length (valid_rows s). valid_rows s ! r))"
proof -
  have l: "(0::nat) < 2 \<and> 2 \<le> length (sample_build :: 32 word build_op list)"
    and n: "(sample_build :: 32 word build_op list) \<noteq> []"
    by (simp_all add: sample_build_def)
  from valid_rows_length_invariant [OF build_sample] l n build_sample
  show ?thesis by blast
qed

subsection \<open>Iteration\<close>

text \<open>
  C2. Let no row index of the tile reach the sentinel \<open>INVALID_ID\<close> (the tile has at
  most \<open>INVALID_ID\<close> rows). Then the loop from \<open>begin()\<close> to \<open>end()\<close> ends, and the row
  ids it visits are exactly the indices \<open>r\<close> with \<open>valid_rows[r]\<close> true, in strictly
  ascending order, each once. For a tile of \<open>N\<close> rows that are all valid they are
  \<open>0, \<dots>, N - 1\<close>. The bound says that \<open>INVALID_ID\<close> is past the last row: a valid
  row at the position \<open>INVALID_ID\<close> could not be told from \<open>end()\<close>.
\<close>

theorem iterate_visits_valid_rows:
  fixes INVALID_ID :: "'w::len word"
  assumes "length (valid_rows t) \<le> unat INVALID_ID"
  shows "\<exists>rs. iterate INVALID_ID this t = Some rs
          \<and> map unat rs = filter (\<lambda>r. valid_rows t ! r) [0..<length (valid_rows t)]
          \<and> set (map unat rs) = {r. r < length (valid_rows t) \<and> valid_rows t ! r}
          \<and> sorted_wrt (<) (map unat rs)
          \<and> distinct rs
          \<and> ((\<forall>r < length (valid_rows t). valid_rows t ! r) \<longrightarrow>
                map unat rs = [0..<length (valid_rows t)])"
proof -
  let ?rows = "valid_rows t"
  let ?fs = "filter (\<lambda>r. ?rows ! r) [0..<length ?rows]"
  let ?rs = "map of_nat ?fs :: 'w word list"
  have lt: "length ?rows < 2 ^ LENGTH('w)"
    using assms unsigned_less [of INVALID_ID] by (rule le_less_trans)
  have "unat (of_nat r :: 'w word) = r" if "r \<in> set ?fs" for r
    using that lt by (simp add: unat_of_nat)
  then have "map (\<lambda>r. unat (of_nat r :: 'w word)) ?fs = ?fs" by (intro map_idI)
  then have u: "map unat ?rs = ?fs" by (simp add: comp_def)
  have s: "sorted_wrt (<) ?fs" by (rule sorted_wrt_filter) simp
  have "distinct (map unat ?rs)" unfolding u by simp
  then have d: "distinct ?rs" by (rule distinct_map [THEN iffD1, THEN conjunct1])
  have a: "?fs = [0..<length ?rows]" if "\<forall>r < length ?rows. ?rows ! r"
    using that by (simp add: filter_id_conv)
  have st: "set (map unat ?rs) = {r. r < length ?rows \<and> ?rows ! r}" unfolding u by auto
  have sw: "sorted_wrt (<) (map unat ?rs)" unfolding u by (rule s)
  have al: "(\<forall>r < length ?rows. ?rows ! r) \<longrightarrow> map unat ?rs = [0..<length ?rows]"
    unfolding u using a by blast
  from iterate_eq [OF assms, of this] u st sw d al show ?thesis by blast
qed

theorem iterate_visits_valid_rows_witness:
  "length (valid_rows (sample_tile :: 32 word LogicalTile)) \<le> unat (4294967295 :: 32 word)
   \<and> (\<exists>rs. iterate (4294967295 :: 32 word) 1 sample_tile = Some rs \<and> map unat rs = [0, 2])"
proof -
  have h: "length (valid_rows (sample_tile :: 32 word LogicalTile)) \<le> unat (4294967295 :: 32 word)"
    by (simp add: sample_tile_def)
  have "filter (\<lambda>r. valid_rows (sample_tile :: 32 word LogicalTile) ! r)
          [0..<length (valid_rows (sample_tile :: 32 word LogicalTile))] = [0, 2]"
    by (simp add: sample_tile_def upt_rec)
  with iterate_visits_valid_rows [OF h, of 1] h show ?thesis by auto
qed

text \<open>
  C9. Let every row of the tile be representable as an \<^verbatim>\<open>id_t\<close>. If no row is valid
  (in particular if there is no row), \<open>begin()\<close> returns the same iterator as \<open>end()\<close>:
  both hold the position \<open>INVALID_ID\<close> and the address of the tile, \<^verbatim>\<open>operator==\<close>
  holds of them, and the range loop visits no row.
\<close>

theorem begin_is_end_without_valid_row:
  fixes INVALID_ID :: "'w::len word"
  assumes "\<forall>r < length (valid_rows t). \<not> valid_rows t ! r"
    and "length (valid_rows t) < 2 ^ LENGTH('w)"
  shows "\<exists>b e. tile_begin INVALID_ID this t = Some b \<and> tile_end INVALID_ID this t = Some e
          \<and> iterator_eq b e \<and> \<not> iterator_neq b e
          \<and> pos b = INVALID_ID \<and> pos e = INVALID_ID \<and> tile b = this \<and> tile e = this
          \<and> iterate INVALID_ID this t = Some []"
proof -
  let ?rows = "valid_rows t"
  have nv: "next_valid ?rows 0 = length ?rows"
    using assms(1) by (intro next_valid_all_invalid) simp_all
  have skip: "skip_invalid ?rows (0 :: 'w word) = Some (of_nat (length ?rows))"
    using skip_invalid_next_valid [OF assms(2), of 0] nv by simp
  have u: "unat (of_nat (length ?rows) :: 'w word) = length ?rows"
    using assms(2) by (simp add: unat_of_nat)
  have b: "tile_begin INVALID_ID this t = Some \<lparr>tile = this, pos = INVALID_ID\<rparr>"
    by (simp add: tile_begin_def iterator_ctor_def skip u)
  have e: "tile_end INVALID_ID this t = Some \<lparr>tile = this, pos = INVALID_ID\<rparr>"
    by (simp add: tile_end_def iterator_ctor_def)
  have "iterate INVALID_ID this t = Some []"
    by (simp add: iterate_def b iterate_from_end)
  with b e show ?thesis by (simp add: iterator_eq_def iterator_neq_def)
qed

theorem begin_is_end_without_valid_row_witness:
  "valid_rows (sample_tile\<lparr>valid_rows := [False, False, False]\<rparr> :: 32 word LogicalTile) =
     [False, False, False]
   \<and> length (valid_rows (sample_tile\<lparr>valid_rows := [False, False, False]\<rparr>
                                 :: 32 word LogicalTile)) < 2 ^ LENGTH(32)
   \<and> tile_begin (4294967295 :: 32 word) 1 (sample_tile\<lparr>valid_rows := [False, False, False]\<rparr>) =
       tile_end 4294967295 1 (sample_tile\<lparr>valid_rows := [False, False, False]\<rparr>)
   \<and> iterate (4294967295 :: 32 word) 1 (sample_tile\<lparr>valid_rows := [False, False, False]\<rparr>) =
       Some []
   \<and> valid_rows (LogicalTile_ctor 0 :: 32 word LogicalTile) = []
   \<and> tile_begin (4294967295 :: 32 word) 1 (LogicalTile_ctor 0) =
       tile_end 4294967295 1 (LogicalTile_ctor 0)"
proof -
  let ?t = "sample_tile\<lparr>valid_rows := [False, False, False]\<rparr> :: 32 word LogicalTile"
  let ?e = "LogicalTile_ctor 0 :: 32 word LogicalTile"
  have h1: "\<forall>r < length (valid_rows ?t). \<not> valid_rows ?t ! r"
    by (simp add: less_Suc_eq numeral_3_eq_3)
  have h2: "length (valid_rows ?t) < 2 ^ LENGTH(32)" by simp
  have e0: "valid_rows ?e = []" by (simp add: LogicalTile_ctor_def)
  then have e1: "\<forall>r < length (valid_rows ?e). \<not> valid_rows ?e ! r"
    and e2: "length (valid_rows ?e) < 2 ^ LENGTH(32)" by simp_all
  from begin_is_end_without_valid_row [OF h1 h2, of 4294967295 1]
    begin_is_end_without_valid_row [OF e1 e2, of 4294967295 1] h2 e0
  show ?thesis by auto
qed

subsection \<open>The materialization executor\<close>

text \<open>
  C6. Let the execute phase receive a logical tile that satisfies the invariants of the
  data model and whose row indices lie below \<open>INVALID_ID\<close>, with an old-to-new column
  mapping that is a map, sends no two logical columns to the same output column and names
  only columns of the tile. Then it emits a physical tile with exactly one row per visible
  row of the input, in the order of the input's iteration: for every \<open>j\<close> and every pair
  \<open>(c, k)\<close> of the mapping, row \<open>j\<close> of the output holds in column \<open>k\<close> the value that
  \<open>GetValue\<close> returns for column \<open>c\<close> and the \<open>j\<close>-th visited row. Columns that the mapping
  does not reach hold nothing.
\<close>

theorem DExecute_materializes_visible_rows:
  fixes INVALID_ID :: "'w::len word"
  assumes "well_formed source_tile"
    and "length (valid_rows source_tile) \<le> unat INVALID_ID"
    and "distinct (map fst old_to_new_cols)"
    and "distinct (map snd old_to_new_cols)"
    and "\<forall>e \<in> set old_to_new_cols. uint (fst e) < NumCols source_tile"
  shows "\<exists>rows dest_tile.
           iterate INVALID_ID this source_tile = Some rows
         \<and> DExecute gv iv INVALID_ID old_to_new_cols (Some (this, source_tile)) =
             Some (Inr (Emitted dest_tile))
         \<and> length dest_tile = length rows
         \<and> (\<forall>j < length rows. \<forall>e \<in> set old_to_new_cols.
               \<exists>v. GetValue gv iv source_tile (fst e) (rows ! j) = Inr v
                 \<and> (dest_tile ! j) (snd e) = Some v)
         \<and> (\<forall>j < length rows. \<forall>k. k \<notin> snd ` set old_to_new_cols \<longrightarrow> (dest_tile ! j) k = None)"
proof -
  let ?M = old_to_new_cols
  let ?f = "\<lambda>old r. gv (base_tile (schema source_tile ! unat old))
                  (position_lists source_tile !
                     position_list_idx (schema source_tile ! unat old) ! unat r)
                  (origin_column_id (schema source_tile ! unat old))"
  from iterate_rows_valid [OF assms(2), of this] obtain rows
    where it: "iterate INVALID_ID this source_tile = Some rows"
      and rv: "\<forall>r \<in> set rows. unat r < length (valid_rows source_tile)
                 \<and> valid_rows source_tile ! unat r"
    by blast
  have cols: "\<forall>e \<in> set ?M. unat (fst e) < length (schema source_tile)"
    using assms(5) by (simp add: NumCols_def uint_less_int_iff)
  from GenerateTileToColMap_result [OF cols, of "[]"] obtain tc
    where tc: "GenerateTileToColMap ?M source_tile [] = Inr tc"
      and stc: "set (concat (map snd tc)) = fst ` set ?M"
    by auto
  let ?cols = "concat (map snd tc)"
  have gvv: "GetValue gv iv source_tile old r = Inr (?f old r)"
    if "old \<in> set ?cols" and "r \<in> set rows" for old r
  proof -
    from that(1) have "old \<in> fst ` set ?M" unfolding stc .
    with cols have "unat old < length (schema source_tile)" by blast
    with that(2) rv show ?thesis by (intro GetValue_well_formed [OF assms(1)]) auto
  qed
  have dom: "\<exists>k. map_of ?M old = Some k" if "old \<in> set ?cols" for old
  proof -
    from that have "old \<in> fst ` set ?M" unfolding stc .
    then have "map_of ?M old \<noteq> None" by (simp add: map_of_eq_None_iff)
    then show ?thesis by auto
  qed
  have inj: "o1 = o2" if "map_of ?M o1 = Some k" and "map_of ?M o2 = Some k" for o1 o2 k
    using assms(4) that by (rule map_of_injective)
  have len: "length (allocate_tile (length rows) :: ('w word, 'a) physical_tile) = length rows"
    by (simp add: allocate_tile_def)
  have "\<exists>d'. copy_columns gv iv source_tile ?M ?cols rows (allocate_tile (length rows)) = Inr d'
           \<and> length d' = length (allocate_tile (length rows) :: ('w word, 'a) physical_tile)
           \<and> (\<forall>i < length rows. \<forall>k.
                 (\<forall>old \<in> set ?cols. map_of ?M old = Some k \<longrightarrow>
                    (d' ! i) k = Some (?f old (rows ! i)))
               \<and> ((\<forall>old \<in> set ?cols. map_of ?M old \<noteq> Some k) \<longrightarrow>
                    (d' ! i) k = (allocate_tile (length rows) ! i) k))"
  proof (rule copy_columns_result)
    show "GetValue gv iv source_tile old r = Inr (?f old r)"
      if "old \<in> set ?cols" and "r \<in> set rows" for old r
      using that by (rule gvv)
    show "\<exists>k. map_of ?M old = Some k" if "old \<in> set ?cols" for old
      using that by (rule dom)
    show "o1 = o2" if "map_of ?M o1 = Some k" and "map_of ?M o2 = Some k" for o1 o2 k
      using that by (rule inj)
    show "length (allocate_tile (length rows) :: ('w word, 'a) physical_tile) = length rows"
      by (rule len)
  qed
  then obtain d' where run: "copy_columns gv iv source_tile ?M ?cols rows
                          (allocate_tile (length rows)) = Inr d'"
    and ld: "length d' = length (allocate_tile (length rows) :: ('w word, 'a) physical_tile)"
    and set: "\<And>i k old. i < length rows \<Longrightarrow> old \<in> set ?cols \<Longrightarrow> map_of ?M old = Some k
                \<Longrightarrow> (d' ! i) k = Some (?f old (rows ! i))"
    and keep: "\<And>i k. i < length rows \<Longrightarrow> \<forall>old \<in> set ?cols. map_of ?M old \<noteq> Some k
                \<Longrightarrow> (d' ! i) k = (allocate_tile (length rows) ! i) k"
    by blast
  have ex: "DExecute gv iv INVALID_ID ?M (Some (this, source_tile)) = Some (Inr (Emitted d'))"
    by (simp add: DExecute_def it tc MaterializeByTiles_eq run)
  have val: "\<exists>v. GetValue gv iv source_tile (fst e) (rows ! j) = Inr v
                 \<and> (d' ! j) (snd e) = Some v"
    if "j < length rows" and "e \<in> set ?M" for j e
  proof -
    from that(2) have "(fst e, snd e) \<in> set ?M" by simp
    with assms(3) have m: "map_of ?M (fst e) = Some (snd e)" by (rule map_of_is_SomeI)
    from that(2) have c: "fst e \<in> set ?cols" unfolding stc by (rule imageI)
    from that(1) have "rows ! j \<in> set rows" by simp
    from gvv [OF c this] set [OF that(1) c m] show ?thesis by simp
  qed
  have none: "(d' ! j) k = None" if "j < length rows" and "k \<notin> snd ` set ?M" for j k
  proof -
    have "\<forall>old \<in> set ?cols. map_of ?M old \<noteq> Some k"
    proof (intro ballI notI)
      fix old assume "map_of ?M old = Some k"
      then have "(old, k) \<in> set ?M" by (rule map_of_SomeD)
      then have "k \<in> snd ` set ?M" by force
      with that(2) show False by simp
    qed
    from keep [OF that(1) this] that(1) show ?thesis by (simp add: allocate_tile_def)
  qed
  from it ex ld len val none show ?thesis by auto
qed

theorem DExecute_materializes_visible_rows_witness:
  "well_formed (sample_tile :: 32 word LogicalTile)
   \<and> length (valid_rows (sample_tile :: 32 word LogicalTile)) \<le> unat (4294967295 :: 32 word)
   \<and> distinct (map fst [(1 :: 32 word, 0 :: 32 word)])
   \<and> distinct (map snd [(1 :: 32 word, 0 :: 32 word)])
   \<and> (\<exists>dest_tile.
         DExecute (\<lambda>p row col. (p, row, col)) (0, 0, 0) (4294967295 :: 32 word) [(1, 0)]
           (Some (3, sample_tile)) = Some (Inr (Emitted dest_tile))
       \<and> length dest_tile = 2
       \<and> (dest_tile ! 0) 0 = Some (7, 2, 1)
       \<and> (dest_tile ! 1) 0 = Some (7, 1, 1)
       \<and> (dest_tile ! 0) 1 = None)"
proof -
  let ?gv = "\<lambda>(p :: nat) (row :: 32 word) (col :: 32 word). (p, row, col)"
  let ?M = "[(1 :: 32 word, 0 :: 32 word)]"
  have h1: "well_formed (sample_tile :: 32 word LogicalTile)"
    by (simp add: well_formed_def sample_tile_def)
  have h2: "length (valid_rows (sample_tile :: 32 word LogicalTile))
              \<le> unat (4294967295 :: 32 word)"
    by (simp add: sample_tile_def)
  have h3: "distinct (map fst ?M)" and h4: "distinct (map snd ?M)" by simp_all
  have h5: "\<forall>e \<in> set ?M. uint (fst e) < NumCols (sample_tile :: 32 word LogicalTile)"
    by (simp add: NumCols_def sample_tile_def)
  from DExecute_materializes_visible_rows [OF h1 h2 h3 h4 h5, of 3 ?gv "(0, 0, 0)"]
  obtain dest_tile
    where ex: "DExecute ?gv (0, 0, 0) (4294967295 :: 32 word) ?M (Some (3, sample_tile)) =
                 Some (Inr (Emitted dest_tile))"
      and len: "length dest_tile = length [0, 2 :: 32 word]"
      and val: "\<forall>j < length [0, 2 :: 32 word]. \<forall>e \<in> set ?M.
               \<exists>v. GetValue ?gv (0, 0, 0) sample_tile (fst e) ([0, 2] ! j) = Inr v
                 \<and> (dest_tile ! j) (snd e) = Some v"
      and none: "\<forall>j < length [0, 2 :: 32 word]. \<forall>k. k \<notin> snd ` set ?M \<longrightarrow> (dest_tile ! j) k = None"
    unfolding iterate_sample_tile by auto
  have g0: "GetValue ?gv (0, 0, 0) (sample_tile :: 32 word LogicalTile) 1 0 = Inr (7, 2, 1)"
    and g2: "GetValue ?gv (0, 0, 0) (sample_tile :: 32 word LogicalTile) 1 2 = Inr (7, 1, 1)"
    by (simp_all add: GetValue_def sample_tile_def)
  from val [rule_format, of 0 "(1, 0)"] g0 have v0: "(dest_tile ! 0) 0 = Some (7, 2, 1)" by simp
  from val [rule_format, of 1 "(1, 0)"] g2 have v1: "(dest_tile ! 1) 0 = Some (7, 1, 1)" by simp
  from none [rule_format, of 0 1] have n0: "(dest_tile ! 0) 1 = None" by simp
  from h1 h2 h3 h4 ex len v0 v1 n0 show ?thesis by simp
qed

subsection \<open>Frame of AddColumn\<close>

text \<open>
  C10. In a state where \<open>position_list_idx\<close> is smaller than the number of position lists,
  \<open>AddColumn\<close> succeeds and appends exactly one descriptor: \<open>NumCols\<close> grows by one and
  the new last descriptor holds the given base tile, origin column id and position-list
  index. \<open>num_tuples\<close>, every position list and \<open>valid_rows\<close> are unchanged, and when
  \<open>take_ownership\<close> is unset the owned-tile set is unchanged as well.
\<close>

theorem AddColumn_frame:
  assumes "idx < length (position_lists t)"
  shows "\<exists>t'. AddColumn t p own oc idx = Inr t'
           \<and> schema t' = schema t @ [\<lparr>position_list_idx = idx, base_tile = p,
                                       origin_column_id = oc\<rparr>]
           \<and> NumCols t' = NumCols t + 1
           \<and> base_tile (last (schema t')) = p
           \<and> origin_column_id (last (schema t')) = oc
           \<and> position_list_idx (last (schema t')) = idx
           \<and> num_tuples t' = num_tuples t
           \<and> position_lists t' = position_lists t
           \<and> valid_rows t' = valid_rows t
           \<and> (\<not> own \<longrightarrow> owned_base_tiles t' = owned_base_tiles t)"
  using assms by (simp add: AddColumn_def NumCols_def Let_def)

theorem AddColumn_frame_witness:
  "(0::nat) < length (position_lists (sample_tile :: 32 word LogicalTile))
   \<and> (\<exists>t'. AddColumn (sample_tile :: 32 word LogicalTile) 5 False 1 0 = Inr t'
          \<and> NumCols t' = NumCols (sample_tile :: 32 word LogicalTile) + 1
          \<and> base_tile (last (schema t')) = 5
          \<and> valid_rows t' = [True, False, True]
          \<and> owned_base_tiles t' = [7])"
proof -
  have h: "(0::nat) < length (position_lists (sample_tile :: 32 word LogicalTile))"
    by (simp add: sample_tile_def)
  from AddColumn_frame [OF h, of 5 False 1] show ?thesis
    using h by (auto simp: sample_tile_def)
qed

end
